theory Spec2Isabelle
  imports Main "HOL-Library.Word" "HOL-Library.Multiset"
begin

section \<open>The order priority queues (package models)\<close>

text \<open>
  The source holds two textually identical heaps, \<open>BidPQueue\<close> and \<open>AskPQueue\<close>, which
  differ only in the payload pointer they store (\<open>*Bid\<close> or \<open>*Ask\<close>). The embedding has one
  record with the payload as a type parameter; every method below is the translation of
  both copies. The two constructors are translated separately.

  A Go pointer is an \<open>option\<close>: \<open>None\<close> is \<open>nil\<close>. The queue never looks inside a payload.
  Prices and quantities are \<open>uint32\<close>. The element count and the heap indices are Go
  \<open>int\<close>s that the code never lets go below zero (Pop returns before decrementing a count
  below one), so they are \<open>nat\<close>; \<open>k / 2\<close> on them is \<open>k div 2\<close>.

  Go's run-time panics are values: an index outside a slice, a field read through a nil
  pointer, a slice expression beyond the slice. A result is \<open>panic + 'a\<close>, with \<open>Inl\<close> the
  panic. A panic result does not describe the state the panic leaves behind.
\<close>

datatype panic = IndexOutOfRange | NilDereference | SliceOutOfRange

type_synonym u32 = "32 word"

type_synonym PQType = int

definition MAXPQ :: PQType where
  "MAXPQ = 0"

definition MINPQ :: PQType where
  "MINPQ = 1"

text \<open>\<open>bidItem\<close> and \<open>askItem\<close>; the field \<open>value\<close> is called \<open>val\<close> here.\<close>

record 'v item =
  val :: "'v option"
  price :: u32
  quantity :: u32

type_synonym comparator_fn = "u32 \<Rightarrow> u32 \<Rightarrow> u32 \<Rightarrow> u32 \<Rightarrow> bool"

record 'v PQueue =
  items :: "'v item option list"
  elemsCount :: nat
  comparator :: comparator_fn

definition newItem :: "'v option \<Rightarrow> u32 \<Rightarrow> u32 \<Rightarrow> 'v item option" where
  "newItem v p n = Some \<lparr>val = v, price = p, quantity = n\<rparr>"

definition bidComparator :: comparator_fn where
  "bidComparator price1 quantity1 price2 quantity2 =
     (if price1 < price2 then True
      else if price1 > price2 then False
      else quantity2 > quantity1)"

definition askComparator :: comparator_fn where
  "askComparator price1 quantity1 price2 quantity2 =
     (if price1 > price2 then True
      else if price1 < price2 then False
      else quantity2 > quantity1)"

definition NewBidPQueue :: "PQType \<Rightarrow> 'bid PQueue" where
  "NewBidPQueue pqType =
     (let cmp = (if pqType = MAXPQ then bidComparator else askComparator)
      in \<lparr>items = [None], elemsCount = 0, comparator = cmp\<rparr>)"

definition NewAskPQueue :: "PQType \<Rightarrow> 'ask PQueue" where
  "NewAskPQueue pqType =
     (let cmp = (if pqType = MAXPQ then bidComparator else askComparator)
      in \<lparr>items = [None], elemsCount = 0, comparator = cmp\<rparr>)"

definition size_pq :: "'v PQueue \<Rightarrow> nat" where
  "size_pq pq = elemsCount pq"

text \<open>\<open>pq.items[i]\<close>, and the field reads \<open>pq.items[i].price\<close> of \<open>less\<close>.\<close>

definition index :: "'a list \<Rightarrow> nat \<Rightarrow> panic + 'a" where
  "index xs i = (if i < length xs then Inr (xs ! i) else Inl IndexOutOfRange)"

definition deref :: "'a option \<Rightarrow> panic + 'a" where
  "deref p = (case p of None \<Rightarrow> Inl NilDereference | Some x \<Rightarrow> Inr x)"

definition less_pq :: "'v PQueue \<Rightarrow> nat \<Rightarrow> nat \<Rightarrow> panic + bool" where
  "less_pq pq i j =
     (case index (items pq) i of Inl e \<Rightarrow> Inl e | Inr pi \<Rightarrow>
      case deref pi of Inl e \<Rightarrow> Inl e | Inr a \<Rightarrow>
      case index (items pq) j of Inl e \<Rightarrow> Inl e | Inr pj \<Rightarrow>
      case deref pj of Inl e \<Rightarrow> Inl e | Inr b \<Rightarrow>
        Inr (comparator pq (price a) (quantity a) (price b) (quantity b)))"

definition exch :: "'v PQueue \<Rightarrow> nat \<Rightarrow> nat \<Rightarrow> panic + 'v PQueue" where
  "exch pq i j =
     (case index (items pq) i of Inl e \<Rightarrow> Inl e | Inr tmpItem \<Rightarrow>
      case index (items pq) j of Inl e \<Rightarrow> Inl e | Inr itemj \<Rightarrow>
        Inr (pq\<lparr>items := (items pq)[i := itemj, j := tmpItem]\<rparr>))"

function swim :: "'v PQueue \<Rightarrow> nat \<Rightarrow> panic + 'v PQueue" where
  "swim pq k =
     (if k > 1 then
        (case less_pq pq (k div 2) k of
           Inl e \<Rightarrow> Inl e
         | Inr b \<Rightarrow>
            if b then
              (case exch pq (k div 2) k of
                 Inl e \<Rightarrow> Inl e
               | Inr pq' \<Rightarrow> swim pq' (k div 2))
            else Inr pq)
      else Inr pq)"
  by pat_completeness auto
termination
  by (relation "measure (\<lambda>(pq, k). k)") auto

declare swim.simps [simp del]

text \<open>
  The loop of \<open>sink\<close> moves on from \<open>k\<close> to \<open>j \<ge> 2 * k\<close>, which is no progress at
  \<open>k = 0\<close>: there the Go loop can spin. Not returning is the value \<open>None\<close>.
\<close>

partial_function (option) sink :: "'v PQueue \<Rightarrow> nat \<Rightarrow> (panic + 'v PQueue) option" where
  "sink pq k =
     (if 2 * k \<le> size_pq pq then
        (case (if 2 * k < size_pq pq then less_pq pq (2 * k) (2 * k + 1) else Inr False) of
           Inl e \<Rightarrow> Some (Inl e)
         | Inr up \<Rightarrow>
            (let j = (if up then 2 * k + 1 else 2 * k) in
             case less_pq pq k j of
               Inl e \<Rightarrow> Some (Inl e)
             | Inr b \<Rightarrow>
                if \<not> b then Some (Inr pq)
                else
                  (case exch pq k j of
                     Inl e \<Rightarrow> Some (Inl e)
                   | Inr pq' \<Rightarrow> sink pq' j)))
      else Some (Inr pq))"

declare sink.simps [code]

definition Push :: "'v PQueue \<Rightarrow> 'v option \<Rightarrow> u32 \<Rightarrow> u32 \<Rightarrow> panic + 'v PQueue" where
  "Push pq v p n =
     (let item = newItem v p n;
          pq1 = pq\<lparr>items := items pq @ [item]\<rparr>;
          pq2 = pq1\<lparr>elemsCount := elemsCount pq1 + 1\<rparr>
      in swim pq2 (size_pq pq2))"

text \<open>
  \<open>pq.items[0:pq.size()]\<close> panics when the bound exceeds the capacity of the slice. The
  model has no capacity and takes the length for it, the least capacity a slice has.
  \<open>max.value\<close> is read when Pop returns, after \<open>sink\<close>.
\<close>

definition Pop :: "'v PQueue \<Rightarrow> (panic + 'v option \<times> 'v PQueue) option" where
  "Pop pq =
     (if size_pq pq < 1 then Some (Inr (None, pq))
      else
        case index (items pq) 1 of Inl e \<Rightarrow> Some (Inl e) | Inr maxItem \<Rightarrow>
        case exch pq 1 (size_pq pq) of Inl e \<Rightarrow> Some (Inl e) | Inr pq1 \<Rightarrow>
          if size_pq pq1 > length (items pq1) then Some (Inl SliceOutOfRange)
          else
            let pq2 = pq1\<lparr>items := take (size_pq pq1) (items pq1)\<rparr>;
                pq3 = pq2\<lparr>elemsCount := elemsCount pq2 - 1\<rparr>
            in case sink pq3 1 of
                 None \<Rightarrow> None
               | Some (Inl e) \<Rightarrow> Some (Inl e)
               | Some (Inr pq4) \<Rightarrow>
                  (case deref maxItem of
                     Inl e \<Rightarrow> Some (Inl e)
                   | Inr m \<Rightarrow> Some (Inr (val m, pq4))))"

text \<open>\<open>Head\<close>, \<open>Size\<close> and \<open>Empty\<close> write nothing: they return a value only.\<close>

definition Head :: "'v PQueue \<Rightarrow> panic + 'v option" where
  "Head pq =
     (if size_pq pq < 1 then Inr None
      else
        case index (items pq) 1 of Inl e \<Rightarrow> Inl e | Inr h \<Rightarrow>
        case deref h of Inl e \<Rightarrow> Inl e | Inr m \<Rightarrow> Inr (val m))"

definition Size :: "'v PQueue \<Rightarrow> nat" where
  "Size pq = size_pq pq"

definition Empty :: "'v PQueue \<Rightarrow> bool" where
  "Empty pq = (size_pq pq = 0)"

subsection \<open>Sequences of operations\<close>

text \<open>
  A client's calls, one after the other: \<open>run\<close> threads the queue through them and collects
  what each Pop returned. A panic ends the run.
\<close>

datatype 'v op = OpPush "'v option" u32 u32 | OpPop

fun run :: "'v op list \<Rightarrow> 'v PQueue \<Rightarrow> (panic + 'v option list \<times> 'v PQueue) option" where
  "run [] pq = Some (Inr ([], pq))"
| "run (OpPush v p n # ops) pq =
     (case Push pq v p n of
        Inl e \<Rightarrow> Some (Inl e)
      | Inr pq' \<Rightarrow> run ops pq')"
| "run (OpPop # ops) pq =
     (case Pop pq of
        None \<Rightarrow> None
      | Some (Inl e) \<Rightarrow> Some (Inl e)
      | Some (Inr (v, pq')) \<Rightarrow>
         (case run ops pq' of
            None \<Rightarrow> None
          | Some (Inl e) \<Rightarrow> Some (Inl e)
          | Some (Inr (vs, pq'')) \<Rightarrow> Some (Inr (v # vs, pq''))))"

definition popped :: "(panic + 'v option list \<times> 'v PQueue) option \<Rightarrow> 'v option list option" where
  "popped r = (case r of Some (Inr (vs, pq)) \<Rightarrow> Some vs | _ \<Rightarrow> None)"

definition pushes :: "('v option \<times> u32 \<times> u32) list \<Rightarrow> 'v op list" where
  "pushes es = map (\<lambda>(v, p, n). OpPush v p n) es"

definition pops :: "nat \<Rightarrow> 'v op list" where
  "pops n = replicate n OpPop"

text \<open>The four entries of the pop-ordering examples.\<close>

definition four_entries :: "(string option \<times> u32 \<times> u32) list" where
  "four_entries =
     [(Some ''A'', 10, 5), (Some ''B'', 20, 1), (Some ''C'', 20, 9), (Some ''D'', 15, 3)]"

subsection \<open>The two policies, in the words of the specification\<close>

text \<open>
  \<open>dominates(priceA, qtyA, priceB, qtyB)\<close> reads: B dominates A.
\<close>

definition high_price_first :: comparator_fn where
  "high_price_first priceA qtyA priceB qtyB \<longleftrightarrow>
     priceB > priceA \<or> (priceA = priceB \<and> qtyB > qtyA)"

definition low_price_first :: comparator_fn where
  "low_price_first priceA qtyA priceB qtyB \<longleftrightarrow>
     priceB < priceA \<or> (priceA = priceB \<and> qtyB > qtyA)"

subsection \<open>Invariants\<close>

text \<open>
  The backing slice is one longer than the live count and slot 0 holds nil; the live slots
  1 to \<open>elemsCount\<close> hold items. The comparator is one of the two the constructors bind.
\<close>

definition structural :: "'v PQueue \<Rightarrow> bool" where
  "structural pq \<longleftrightarrow>
     length (items pq) = elemsCount pq + 1 \<and> index (items pq) 0 = Inr None"

definition live_slots :: "'v PQueue \<Rightarrow> bool" where
  "live_slots pq \<longleftrightarrow> (\<forall>i \<in> set [1..<length (items pq)]. items pq ! i \<noteq> None)"

definition well_formed :: "'v PQueue \<Rightarrow> bool" where
  "well_formed pq \<longleftrightarrow> structural pq \<and> live_slots pq"

definition policy :: "comparator_fn \<Rightarrow> bool" where
  "policy cmp \<longleftrightarrow> cmp = bidComparator \<or> cmp = askComparator"

text \<open>
  The heap property: at every node \<open>k \<ge> 1\<close>, \<open>less\<close> answers false for \<open>k\<close> against each
  of its live children \<open>2k\<close> and \<open>2k + 1\<close>.
\<close>

definition heap_property :: "'v PQueue \<Rightarrow> bool" where
  "heap_property pq \<longleftrightarrow>
     (\<forall>k \<in> set [1..<Suc (size_pq pq)]. \<forall>c \<in> set [2 * k, 2 * k + 1].
        c \<le> size_pq pq \<longrightarrow> less_pq pq k c = Inr False)"

text \<open>The live entries, slots 1 and up, as a multiset.\<close>

definition entries :: "'v PQueue \<Rightarrow> 'v item option multiset" where
  "entries pq = mset (drop 1 (items pq))"

text \<open>\<open>dominated cmp a b\<close>: the comparator judges \<open>b\<close> as dominating \<open>a\<close>.\<close>

definition dominated :: "comparator_fn \<Rightarrow> 'v item \<Rightarrow> 'v item \<Rightarrow> bool" where
  "dominated cmp a b = cmp (price a) (quantity a) (price b) (quantity b)"

text \<open>Proof vocabulary: the item in slot \<open>i\<close>, and heaps with one slot out of place.\<close>

definition slot :: "'v PQueue \<Rightarrow> nat \<Rightarrow> 'v item" where
  "slot pq i = the (items pq ! i)"

definition heap_fn :: "comparator_fn \<Rightarrow> (nat \<Rightarrow> 'v item) \<Rightarrow> nat \<Rightarrow> bool" where
  "heap_fn cmp f n \<longleftrightarrow> (\<forall>c. 2 \<le> c \<and> c \<le> n \<longrightarrow> \<not> dominated cmp (f (c div 2)) (f c))"

definition heap_up :: "comparator_fn \<Rightarrow> (nat \<Rightarrow> 'v item) \<Rightarrow> nat \<Rightarrow> nat \<Rightarrow> bool" where
  "heap_up cmp f n k \<longleftrightarrow>
     (\<forall>c. 2 \<le> c \<and> c \<le> n \<and> c \<noteq> k \<longrightarrow> \<not> dominated cmp (f (c div 2)) (f c)) \<and>
     (\<forall>c. 2 \<le> c \<and> c \<le> n \<and> c div 2 = k \<and> 2 \<le> k \<longrightarrow> \<not> dominated cmp (f (k div 2)) (f c))"

definition heap_down :: "comparator_fn \<Rightarrow> (nat \<Rightarrow> 'v item) \<Rightarrow> nat \<Rightarrow> nat \<Rightarrow> bool" where
  "heap_down cmp f n k \<longleftrightarrow>
     (\<forall>c. 2 \<le> c \<and> c \<le> n \<and> c div 2 \<noteq> k \<longrightarrow> \<not> dominated cmp (f (c div 2)) (f c)) \<and>
     (\<forall>c. 2 \<le> c \<and> c \<le> n \<and> c div 2 = k \<and> 2 \<le> k \<longrightarrow> \<not> dominated cmp (f (k div 2)) (f c))"

definition swapf :: "(nat \<Rightarrow> 'a) \<Rightarrow> nat \<Rightarrow> nat \<Rightarrow> nat \<Rightarrow> 'a" where
  "swapf f i j = (\<lambda>c. if c = j then f i else if c = i then f j else f c)"

definition exchanged :: "'v PQueue \<Rightarrow> nat \<Rightarrow> nat \<Rightarrow> 'v PQueue" where
  "exchanged pq i j = pq\<lparr>items := (items pq)[i := items pq ! j, j := items pq ! i]\<rparr>"

text \<open>\<open>same_queue pq pq'\<close>: \<open>pq'\<close> is well formed and holds what \<open>pq\<close> holds, rearranged.\<close>

definition same_queue :: "'v PQueue \<Rightarrow> 'v PQueue \<Rightarrow> bool" where
  "same_queue pq pq' \<longleftrightarrow> well_formed pq' \<and> elemsCount pq' = elemsCount pq \<and>
     comparator pq' = comparator pq \<and> mset (items pq') = mset (items pq)"

section \<open>The administrative console (package repl)\<close>

text \<open>
  Only the dispatch that \<open>Handle\<close> does under \<open>cmdSessionsMutex\<close> is modelled: the lookup of
  the session, the lookup of the command, and the entry it adds to \<open>cmdSessions\<close>. The
  command goroutines and their channels are not: where \<open>Handle\<close> returns what it reads from
  a session's \<open>out\<close> channel, the model says from which session. A session is its two
  channels, named by numbers; the channels \<open>make\<close> creates, and whether \<open>done\<close> is closed,
  are inputs. The deferred \<open>recover\<close> answers a panic of \<open>Handle\<close> itself, which only the
  channel operations can raise; it has no branch here. \<open>range replCmds\<close> yields the keys in an order Go leaves open: \<open>InitREPL\<close>
  takes that order as an input.
\<close>

datatype replCmdFn = Cmd_sendnotif | Cmd_add_stocks_to_exchange | Cmd_update_stock_price
  | Cmd_add_market_event

record cmdSession =
  chan_in :: nat
  chan_out :: nat

record repl =
  cmdSessions :: "string \<rightharpoonup> cmdSession"
  validCmds :: "string list"

definition replCmds :: "string \<rightharpoonup> replCmdFn" where
  "replCmds = map_of
     [(''sendnotif'', Cmd_sendnotif),
      (''add_stocks_to_exchange'', Cmd_add_stocks_to_exchange),
      (''update_stock_price'', Cmd_update_stock_price),
      (''add_market_event'', Cmd_add_market_event)]"

definition repl_init :: repl where
  "repl_init = \<lparr>cmdSessions = Map.empty, validCmds = []\<rparr>"

definition InitREPL :: "string list \<Rightarrow> repl \<Rightarrow> repl" where
  "InitREPL order st = st\<lparr>validCmds := fold (\<lambda>cmd vc. vc @ [cmd]) order (validCmds st)\<rparr>"

text \<open>\<open>%+v\<close> of a \<open>[]string\<close>: the elements between brackets, one space between two.\<close>

fun join_sp :: "string list \<Rightarrow> string" where
  "join_sp [] = []"
| "join_sp [x] = x"
| "join_sp (x # y # ys) = x @ '' '' @ join_sp (y # ys)"

definition fmt_strings :: "string list \<Rightarrow> string" where
  "fmt_strings xs = ''['' @ join_sp xs @ '']''"

definition invalid_command :: "string \<Rightarrow> string list \<Rightarrow> string" where
  "invalid_command cmd vc =
     ''Invalid command '' @ [CHR 0x27] @ cmd @ [CHR 0x27] @ ''. Valid commands are: ''
       @ fmt_strings vc @ '' ''"

datatype reply = Return string | FromSession cmdSession

definition Handle :: "repl \<Rightarrow> bool \<Rightarrow> cmdSession \<Rightarrow> string \<Rightarrow> string \<Rightarrow> reply \<times> repl" where
  "Handle st done_closed made sid cmd =
     (case cmdSessions st sid of
        None \<Rightarrow>
          (case replCmds cmd of
             None \<Rightarrow> (Return (invalid_command cmd (validCmds st)), st)
           | Some fn \<Rightarrow>
               (FromSession made, st\<lparr>cmdSessions := (cmdSessions st)(sid \<mapsto> made)\<rparr>))
      | Some sess \<Rightarrow>
          if done_closed then (Return [], st) else (FromSession sess, st))"

section \<open>Configuration loading (package utils)\<close>

text \<open>
  \<open>os.Open\<close> and the JSON decoder are the environment: the file system maps a name to an
  error or to the file's contents, the decoder maps contents and the structure it decodes
  into to an error or to the structure filled in. \<open>log.Fatal\<close> prints and exits the
  process: the outcome \<open>Fatal\<close>, with the message.
\<close>

record Configuration =
  EventId :: string
  EventSecret :: string
  LogFileName :: string
  LogMaxSize :: int
  LogLevel :: string
  DbUser :: string
  DbPassword :: string
  DbHost :: string
  DbName :: string

datatype 'a outcome = Returns 'a | Fatal string

type_synonym file_system = "string \<Rightarrow> string + string"

type_synonym json_decoder = "string \<Rightarrow> Configuration \<Rightarrow> string + Configuration"

definition InitConfiguration ::
  "file_system \<Rightarrow> json_decoder \<Rightarrow> Configuration \<Rightarrow> Configuration outcome" where
  "InitConfiguration fs decode conf =
     (case fs ''config.json'' of
        Inl err \<Rightarrow> Fatal ''Failed to open config.json. Cannot proceed''
      | Inr configFile \<Rightarrow>
          (case decode configFile conf of
             Inl err \<Rightarrow> Fatal (''Failed to load configuration. Cannot proceed. Error: '' @ err)
           | Inr conf' \<Rightarrow> Returns conf'))"

section \<open>Sample inputs\<close>

text \<open>Concrete queues, a decoder and an iteration order, for the instances below.\<close>

definition four_pushed :: "string PQueue" where
  "four_pushed =
     \<lparr>items = [None,
        Some \<lparr>val = Some ''C'', price = 20, quantity = 9\<rparr>,
        Some \<lparr>val = Some ''D'', price = 15, quantity = 3\<rparr>,
        Some \<lparr>val = Some ''B'', price = 20, quantity = 1\<rparr>,
        Some \<lparr>val = Some ''A'', price = 10, quantity = 5\<rparr>],
      elemsCount = 4, comparator = bidComparator\<rparr>"

definition three_left :: "string PQueue" where
  "three_left =
     \<lparr>items = [None,
        Some \<lparr>val = Some ''B'', price = 20, quantity = 1\<rparr>,
        Some \<lparr>val = Some ''D'', price = 15, quantity = 3\<rparr>,
        Some \<lparr>val = Some ''A'', price = 10, quantity = 5\<rparr>],
      elemsCount = 3, comparator = bidComparator\<rparr>"

definition sample_conf :: Configuration where
  "sample_conf = \<lparr>EventId = [], EventSecret = [], LogFileName = [], LogMaxSize = 0,
     LogLevel = [], DbUser = [], DbPassword = [], DbHost = [], DbName = []\<rparr>"

definition sample_decode :: json_decoder where
  "sample_decode contents conf =
     (if contents = ''{}'' then Inr conf else Inl ''unexpected EOF'')"

definition sample_order :: "string list" where
  "sample_order =
     [''update_stock_price'', ''sendnotif'', ''add_market_event'', ''add_stocks_to_exchange'']"

section \<open>The comparators\<close>

lemma bid_is_high_price_first: "bidComparator = high_price_first"
  by (intro ext) (auto simp: bidComparator_def high_price_first_def)

lemma ask_is_low_price_first: "askComparator = low_price_first"
  by (intro ext) (auto simp: askComparator_def low_price_first_def)

text \<open>
  C2: the high-price-first comparator answers true exactly when \<open>pB > pA\<close>, or the prices are
  equal and \<open>qB > qA\<close>; the low-price-first comparator exactly when \<open>pB < pA\<close>, or the prices
  are equal and \<open>qB > qA\<close>. Neither answers true on equal prices and equal quantities.
\<close>

theorem comparators_characterised:
  "(bidComparator pA qA pB qB \<longleftrightarrow> pB > pA \<or> (pA = pB \<and> qB > qA)) \<and>
   (askComparator pA qA pB qB \<longleftrightarrow> pB < pA \<or> (pA = pB \<and> qB > qA)) \<and>
   \<not> bidComparator pA qA pA qA \<and> \<not> askComparator pA qA pA qA"
  by (auto simp: bidComparator_def askComparator_def)

text \<open>
  C7: the ordering mode alone selects the policy. A bid queue and an ask queue constructed
  with MAXPQ both bind the high-price-first policy, constructed with MINPQ both bind the
  low-price-first policy, and for every mode the two constructors bind the same comparator.
\<close>

theorem constructors_bind_policy_by_mode:
  "comparator (NewBidPQueue MAXPQ) = high_price_first \<and>
   comparator (NewAskPQueue MAXPQ) = high_price_first \<and>
   comparator (NewBidPQueue MINPQ) = low_price_first \<and>
   comparator (NewAskPQueue MINPQ) = low_price_first \<and>
   comparator (NewBidPQueue pqType) = comparator (NewAskPQueue pqType)"
  by (simp add: NewBidPQueue_def NewAskPQueue_def MAXPQ_def MINPQ_def
      bid_is_high_price_first ask_is_low_price_first)

section \<open>The pop-ordering examples\<close>

lemma pops_4: "pops 4 = [OpPop, OpPop, OpPop, OpPop]"
  by (simp add: pops_def eval_nat_numeral)

lemmas run_defs =
  pushes_def four_entries_def Push_def Pop_def newItem_def Let_def swim.simps sink.simps
  less_pq_def exch_def index_def deref_def size_pq_def MAXPQ_def MINPQ_def

text \<open>
  C4: a queue constructed favor-maximum, after the pushes of (A, 10, 5), (B, 20, 1),
  (C, 20, 9), (D, 15, 3) in that order, pops C, B, D, A and is then the empty queue again.
\<close>

theorem max_queue_pop_order:
  "run (pushes four_entries @ pops 4) (NewBidPQueue MAXPQ) =
     Some (Inr ([Some ''C'', Some ''B'', Some ''D'', Some ''A''], NewBidPQueue MAXPQ)) \<and>
   run (pushes four_entries @ pops 4) (NewAskPQueue MAXPQ) =
     Some (Inr ([Some ''C'', Some ''B'', Some ''D'', Some ''A''], NewAskPQueue MAXPQ))"
  by (simp add: run_defs pops_4 NewBidPQueue_def NewAskPQueue_def bidComparator_def)

text \<open>
  C1, as the code has it: a queue constructed favor-minimum, after the same four pushes,
  pops A, D, C, B: of the two entries of price 20, the one of quantity 9 leaves first.
\<close>

theorem min_queue_pop_order:
  "run (pushes four_entries @ pops 4) (NewAskPQueue MINPQ) =
     Some (Inr ([Some ''A'', Some ''D'', Some ''C'', Some ''B''], NewAskPQueue MINPQ)) \<and>
   run (pushes four_entries @ pops 4) (NewBidPQueue MINPQ) =
     Some (Inr ([Some ''A'', Some ''D'', Some ''C'', Some ''B''], NewBidPQueue MINPQ))"
  by (simp add: run_defs pops_4 NewBidPQueue_def NewAskPQueue_def askComparator_def)

text \<open>C1, as stated, fails: the pop order is not A, D, B, C.\<close>

theorem min_queue_pop_order_counterexample:
  "popped (run (pushes four_entries @ pops 4) (NewAskPQueue MINPQ)) \<noteq>
     Some [Some ''A'', Some ''D'', Some ''B'', Some ''C'']"
  by (simp add: popped_def run_defs pops_4 NewAskPQueue_def askComparator_def)

section \<open>The order the comparators induce\<close>

lemma dominated_asym: "policy cmp \<Longrightarrow> dominated cmp a b \<Longrightarrow> \<not> dominated cmp b a"
  by (auto simp: policy_def dominated_def bidComparator_def askComparator_def split: if_splits)

lemma dominated_negtrans:
  "policy cmp \<Longrightarrow> \<not> dominated cmp a b \<Longrightarrow> \<not> dominated cmp b c \<Longrightarrow> \<not> dominated cmp a c"
  by (auto simp: policy_def dominated_def bidComparator_def askComparator_def split: if_splits)

lemma dominated_irrefl: "policy cmp \<Longrightarrow> \<not> dominated cmp a a"
  using dominated_asym by blast

lemma heap_up_step:
  assumes P: "policy cmp" and H: "heap_up cmp f n k" and k: "2 \<le> k" "k \<le> n"
    and d: "dominated cmp (f (k div 2)) (f k)"
  shows "heap_up cmp (swapf f (k div 2) k) n (k div 2)"
proof -
  let ?p = "k div 2"
  let ?g = "swapf f ?p k"
  have pk: "?p < k" "1 \<le> ?p" "?p \<noteq> k" using k by auto
  have E: "\<And>c. 2 \<le> c \<Longrightarrow> c \<le> n \<Longrightarrow> c \<noteq> k \<Longrightarrow> \<not> dominated cmp (f (c div 2)) (f c)"
    using H by (simp add: heap_up_def)
  have G: "\<And>c. 2 \<le> c \<Longrightarrow> c \<le> n \<Longrightarrow> c div 2 = k \<Longrightarrow> \<not> dominated cmp (f ?p) (f c)"
    using H k by (simp add: heap_up_def)
  have kp: "\<not> dominated cmp (f k) (f ?p)" using dominated_asym[OF P d] .
  have a: "\<not> dominated cmp (?g (c div 2)) (?g c)" if c: "2 \<le> c" "c \<le> n" "c \<noteq> ?p" for c
  proof -
    consider "c = k" | "c \<noteq> k" "c div 2 = k" | "c \<noteq> k" "c div 2 = ?p" | "c \<noteq> k" "c div 2 \<noteq> k" "c div 2 \<noteq> ?p"
      by blast
    then show ?thesis
    proof cases
      case 1 then show ?thesis using kp pk by (simp add: swapf_def)
    next
      case 2
      then have "c \<noteq> ?p" "c div 2 \<noteq> ?p" using pk by auto
      then show ?thesis using 2 G[OF c(1,2)] by (simp add: swapf_def)
    next
      case 3
      have "\<not> dominated cmp (f ?p) (f c)" using E[OF c(1,2)] 3 by simp
      then have "\<not> dominated cmp (f k) (f c)" using dominated_negtrans[OF P kp] by blast
      then show ?thesis using 3 c pk by (simp add: swapf_def)
    next
      case 4 then show ?thesis using E[OF c(1,2)] c by (simp add: swapf_def)
    qed
  qed
  have b: "\<not> dominated cmp (?g (?p div 2)) (?g c)"
    if c: "2 \<le> c" "c \<le> n" "c div 2 = ?p" "2 \<le> ?p" for c
  proof -
    have pp: "?p div 2 \<noteq> k" "?p div 2 \<noteq> ?p" using pk c by auto
    have gp: "\<not> dominated cmp (f (?p div 2)) (f ?p)" using E[of ?p] c k pk by auto
    have cp: "c \<noteq> ?p" using c by auto
    show ?thesis
    proof (cases "c = k")
      case True then show ?thesis using gp pp pk by (simp add: swapf_def)
    next
      case False
      have "\<not> dominated cmp (f ?p) (f c)" using E[OF c(1,2) False] c by simp
      then have "\<not> dominated cmp (f (?p div 2)) (f c)" using dominated_negtrans[OF P gp] by blast
      then show ?thesis using False cp pp by (simp add: swapf_def)
    qed
  qed
  show ?thesis unfolding heap_up_def using a b by blast
qed

lemma heap_up_done:
  assumes H: "heap_up cmp f n k" and d: "k \<le> 1 \<or> \<not> dominated cmp (f (k div 2)) (f k)"
  shows "heap_fn cmp f n"
  unfolding heap_fn_def
proof (intro allI impI)
  fix c assume c: "2 \<le> c \<and> c \<le> n"
  show "\<not> dominated cmp (f (c div 2)) (f c)"
  proof (cases "c = k")
    case True then show ?thesis using d c by auto
  next
    case False then show ?thesis using H c by (simp add: heap_up_def)
  qed
qed

lemma heap_down_step:
  assumes P: "policy cmp" and H: "heap_down cmp f n k" and k: "1 \<le> k" "2 * k \<le> n"
    and j: "j = (if 2 * k < n \<and> dominated cmp (f (2 * k)) (f (2 * k + 1)) then 2 * k + 1 else 2 * k)"
    and d: "dominated cmp (f k) (f j)"
  shows "heap_down cmp (swapf f k j) n j"
proof -
  let ?g = "swapf f k j"
  have jk: "k < j" "j div 2 = k" "2 \<le> j" "j \<le> n" using k j by (auto split: if_splits)
  have E: "\<And>c. 2 \<le> c \<Longrightarrow> c \<le> n \<Longrightarrow> c div 2 \<noteq> k \<Longrightarrow> \<not> dominated cmp (f (c div 2)) (f c)"
    using H by (simp add: heap_down_def)
  have G: "\<And>c. 2 \<le> c \<Longrightarrow> c \<le> n \<Longrightarrow> c div 2 = k \<Longrightarrow> 2 \<le> k \<Longrightarrow> \<not> dominated cmp (f (k div 2)) (f c)"
    using H by (simp add: heap_down_def)
  have jk': "\<not> dominated cmp (f j) (f k)" using dominated_asym[OF P d] .
  have sib: "\<not> dominated cmp (f j) (f c)" if c: "2 \<le> c" "c \<le> n" "c div 2 = k" "c \<noteq> j" for c
  proof (cases "j = 2 * k")
    case True
    then have c1: "c = 2 * k + 1" using c by presburger
    then have "2 * k < n" using c by simp
    then have "\<not> dominated cmp (f (2 * k)) (f (2 * k + 1))" using j True by (auto split: if_splits)
    then show ?thesis using True c1 by simp
  next
    case False
    then have j1: "j = 2 * k + 1" "dominated cmp (f (2 * k)) (f (2 * k + 1))" using j by (auto split: if_splits)
    then have c0: "c = 2 * k" using c by presburger
    show ?thesis using dominated_asym[OF P j1(2)] j1(1) c0 by simp
  qed
  have a: "\<not> dominated cmp (?g (c div 2)) (?g c)" if c: "2 \<le> c" "c \<le> n" "c div 2 \<noteq> j" for c
  proof -
    consider "c = j" | "c \<noteq> j" "c div 2 = k" | "c = k" | "c \<noteq> j" "c \<noteq> k" "c div 2 \<noteq> k"
      by blast
    then show ?thesis
    proof cases
      case 1 then show ?thesis using jk jk' by (simp add: swapf_def)
    next
      case 2
      then have "c \<noteq> k" using c by auto
      then show ?thesis using 2 sib[OF c(1,2)] jk by (simp add: swapf_def)
    next
      case 3
      then have "2 \<le> k" using c by simp
      then have "\<not> dominated cmp (f (k div 2)) (f j)" using G[of j] jk by simp
      moreover have "k div 2 \<noteq> k" "k div 2 \<noteq> j" using \<open>2 \<le> k\<close> jk by auto
      ultimately show ?thesis using 3 jk by (simp add: swapf_def)
    next
      case 4 then show ?thesis using E[OF c(1,2)] c by (simp add: swapf_def)
    qed
  qed
  have b: "\<not> dominated cmp (?g (j div 2)) (?g c)" if c: "2 \<le> c" "c \<le> n" "c div 2 = j" for c
  proof -
    have "c \<noteq> j" "c \<noteq> k" using c jk by auto
    moreover have "\<not> dominated cmp (f j) (f c)" using E[OF c(1,2)] c jk by simp
    ultimately show ?thesis using jk by (simp add: swapf_def)
  qed
  show ?thesis unfolding heap_down_def using a b by blast
qed

lemma heap_down_done:
  assumes P: "policy cmp" and H: "heap_down cmp f n k"
    and j: "j = (if 2 * k < n \<and> dominated cmp (f (2 * k)) (f (2 * k + 1)) then 2 * k + 1 else 2 * k)"
    and d: "2 * k \<le> n \<longrightarrow> \<not> dominated cmp (f k) (f j)"
  shows "heap_fn cmp f n"
  unfolding heap_fn_def
proof (intro allI impI)
  fix c assume c: "2 \<le> c \<and> c \<le> n"
  show "\<not> dominated cmp (f (c div 2)) (f c)"
  proof (cases "c div 2 = k")
    case False then show ?thesis using H c by (simp add: heap_down_def)
  next
    case True
    then have kn: "2 * k \<le> n" using c by auto
    then have kj: "\<not> dominated cmp (f k) (f j)" using d by simp
    have "c = 2 * k \<or> c = 2 * k + 1" using True by auto
    then consider "c = 2 * k" | "c = 2 * k + 1" by blast
    then show ?thesis
    proof cases
      case 1
      show ?thesis
      proof (cases "2 * k < n \<and> dominated cmp (f (2 * k)) (f (2 * k + 1))")
        case False 
        then have "j = 2 * k" using j by presburger
        then show ?thesis using kj 1 True by simp
      next
        case T: True
        then have "j = 2 * k + 1" using j by presburger
        then have "\<not> dominated cmp (f k) (f (2 * k + 1))" using kj by simp
        moreover have "\<not> dominated cmp (f (2 * k + 1)) (f (2 * k))" using dominated_asym[OF P] T by blast 
        ultimately have "\<not> dominated cmp (f k) (f (2 * k))" using dominated_negtrans[OF P] by blast
        then show ?thesis using 1 True by simp
      qed
    next
      case 2
      then have lt: "2 * k < n" using c by simp
      show ?thesis
      proof (cases "dominated cmp (f (2 * k)) (f (2 * k + 1))")
        case T: True 
        then have "j = 2 * k + 1" using j lt by presburger
        then show ?thesis using kj 2 True by simp
      next
        case False 
        then have "j = 2 * k" using j by presburger
        then have "\<not> dominated cmp (f k) (f (2 * k))" using kj by simp
        then have "\<not> dominated cmp (f k) (f (2 * k + 1))" using dominated_negtrans[OF P _ False] by blast
        then show ?thesis using 2 True by simp
      qed
    qed
  qed
qed

section \<open>The heap operations on well-formed queues\<close>

lemma well_formed_iff:
  "well_formed pq \<longleftrightarrow> length (items pq) = elemsCount pq + 1 \<and> items pq ! 0 = None \<and>
     (\<forall>i. 1 \<le> i \<and> i \<le> elemsCount pq \<longrightarrow> items pq ! i \<noteq> None)"
  by (auto simp: well_formed_def structural_def live_slots_def index_def)

lemma less_pq_wf:
  assumes "well_formed pq" "1 \<le> i" "i \<le> size_pq pq" "1 \<le> j" "j \<le> size_pq pq"
  shows "less_pq pq i j = Inr (dominated (comparator pq) (slot pq i) (slot pq j))"
proof -
  have "i < length (items pq)" "j < length (items pq)" "items pq ! i \<noteq> None" "items pq ! j \<noteq> None"
    using assms by (auto simp: well_formed_iff size_pq_def)
  then show ?thesis
    by (auto simp: less_pq_def index_def deref_def dominated_def slot_def)
qed

lemma exch_wf:
  assumes "well_formed pq" "i \<le> size_pq pq" "j \<le> size_pq pq"
  shows "exch pq i j = Inr (exchanged pq i j)"
  using assms by (simp add: exch_def index_def exchanged_def well_formed_iff size_pq_def)

lemma nth_exchanged:
  assumes "i < length xs" "j < length xs"
  shows "xs[i := xs ! j, j := xs ! i] ! c = (if c = j then xs ! i else if c = i then xs ! j else xs ! c)"
  using assms by (auto simp: nth_list_update)

lemma exchanged_same:
  assumes wf: "well_formed pq" and i: "1 \<le> i" "i \<le> size_pq pq" and j: "1 \<le> j" "j \<le> size_pq pq"
  shows "same_queue pq (exchanged pq i j)"
proof -
  have len: "i < length (items pq)" "j < length (items pq)"
    using assms by (auto simp: well_formed_iff size_pq_def)
  have nth: "\<And>c. items (exchanged pq i j) ! c = (if c = j then items pq ! i else if c = i then items pq ! j else items pq ! c)"
    using nth_exchanged[OF len] by (simp add: exchanged_def)
  have "well_formed (exchanged pq i j)"
    unfolding well_formed_iff nth using wf i j len
    by (auto simp: well_formed_iff exchanged_def size_pq_def)
  moreover have "mset (items (exchanged pq i j)) = mset (items pq)"
    using len by (simp add: exchanged_def mset_swap)
  ultimately show ?thesis by (simp add: same_queue_def exchanged_def)
qed

lemma slot_exchanged:
  assumes wf: "well_formed pq" and i: "i \<le> size_pq pq" and j: "j \<le> size_pq pq"
  shows "slot (exchanged pq i j) = swapf (slot pq) i j"
proof -
  have len: "i < length (items pq)" "j < length (items pq)"
    using assms by (auto simp: well_formed_iff size_pq_def)
  show ?thesis
    using nth_exchanged[OF len] by (auto simp: slot_def swapf_def exchanged_def fun_eq_iff)
qed

lemma same_queue_refl: "well_formed pq \<Longrightarrow> same_queue pq pq"
  by (simp add: same_queue_def)

lemma same_queue_trans: "same_queue a b \<Longrightarrow> same_queue b c \<Longrightarrow> same_queue a c"
  by (simp add: same_queue_def)

lemma swim_correct:
  "well_formed pq \<Longrightarrow> k \<le> size_pq pq \<Longrightarrow>
   \<exists>pq'. swim pq k = Inr pq' \<and> same_queue pq pq' \<and>
     (policy (comparator pq) \<longrightarrow> heap_up (comparator pq) (slot pq) (size_pq pq) k \<longrightarrow>
        heap_fn (comparator pq') (slot pq') (size_pq pq'))"
proof (induction pq k rule: swim.induct)
  case (1 pq k)
  note wf = \<open>well_formed pq\<close> and kn = \<open>k \<le> size_pq pq\<close>
  show ?case
  proof (cases "k > 1")
    case False
    then have "swim pq k = Inr pq" by (simp add: swim.simps)
    moreover have "heap_up (comparator pq) (slot pq) (size_pq pq) k \<Longrightarrow>
        heap_fn (comparator pq) (slot pq) (size_pq pq)"
      using heap_up_done False by (metis not_less)
    ultimately show ?thesis using wf by (auto simp: same_queue_refl)
  next
    case True
    let ?p = "k div 2"
    let ?d = "dominated (comparator pq) (slot pq ?p) (slot pq k)"
    have p: "1 \<le> ?p" "?p \<le> size_pq pq" "1 \<le> k" using True kn by auto
    have less: "less_pq pq ?p k = Inr ?d"
      using less_pq_wf[OF wf p(1,2) p(3) kn] .
    show ?thesis
    proof (cases ?d)
      case False
      then have "swim pq k = Inr pq" using True less by (simp add: swim.simps)
      moreover have "heap_up (comparator pq) (slot pq) (size_pq pq) k \<Longrightarrow>
          heap_fn (comparator pq) (slot pq) (size_pq pq)"
        using heap_up_done False by blast
      ultimately show ?thesis using wf by (auto simp: same_queue_refl)
    next
      case d: True
      let ?q = "exchanged pq ?p k"
      have ex: "exch pq ?p k = Inr ?q" using exch_wf[OF wf p(2) kn] .
      have sq: "same_queue pq ?q" using exchanged_same[OF wf p(1,2) p(3) kn] .
      then have wfq: "well_formed ?q" and sz: "size_pq ?q = size_pq pq" and cq: "comparator ?q = comparator pq"
        by (auto simp: same_queue_def size_pq_def)
      have "\<exists>pq'. swim ?q ?p = Inr pq' \<and> same_queue ?q pq' \<and>
         (policy (comparator ?q) \<longrightarrow> heap_up (comparator ?q) (slot ?q) (size_pq ?q) ?p \<longrightarrow>
            heap_fn (comparator pq') (slot pq') (size_pq pq'))"
        using "1.IH"[OF True less d ex wfq] p sz by simp
      then obtain pq' where r: "swim ?q ?p = Inr pq'" "same_queue ?q pq'"
        and h: "policy (comparator ?q) \<Longrightarrow> heap_up (comparator ?q) (slot ?q) (size_pq ?q) ?p \<Longrightarrow>
            heap_fn (comparator pq') (slot pq') (size_pq pq')"
        by blast
      have sw: "swim pq k = Inr pq'" using True less d ex r(1) by (simp add: swim.simps)
      have "heap_fn (comparator pq') (slot pq') (size_pq pq')"
        if P: "policy (comparator pq)" and H: "heap_up (comparator pq) (slot pq) (size_pq pq) k"
      proof -
        have "heap_up (comparator pq) (swapf (slot pq) ?p k) (size_pq pq) ?p"
          using heap_up_step[OF P H _ kn d] True by simp
        then show ?thesis using h P by (simp add: cq sz slot_exchanged[OF wf p(2) kn])
      qed
      then show ?thesis using sw same_queue_trans[OF sq r(2)] by blast
    qed
  qed
qed

lemma sink_correct:
  "well_formed pq \<Longrightarrow> 1 \<le> k \<Longrightarrow>
   \<exists>pq'. sink pq k = Some (Inr pq') \<and> same_queue pq pq' \<and>
     (policy (comparator pq) \<longrightarrow> heap_down (comparator pq) (slot pq) (size_pq pq) k \<longrightarrow>
        heap_fn (comparator pq') (slot pq') (size_pq pq'))"
proof (induction "size_pq pq - k" arbitrary: pq k rule: less_induct)
  case less
  note wf = \<open>well_formed pq\<close> and k1 = \<open>1 \<le> k\<close>
  let ?n = "size_pq pq"
  let ?cmp = "comparator pq"
  define up where "up \<longleftrightarrow> 2 * k < ?n \<and> dominated ?cmp (slot pq (2 * k)) (slot pq (2 * k + 1))"
  define j where "j = (if up then 2 * k + 1 else 2 * k)"
  have j_eq: "j = (if 2 * k < ?n \<and> dominated ?cmp (slot pq (2 * k)) (slot pq (2 * k + 1))
                   then 2 * k + 1 else 2 * k)"
    by (simp only: j_def up_def)
  let ?d = "dominated ?cmp (slot pq k) (slot pq j)"
  show ?case
  proof (cases "2 * k \<le> ?n")
    case False
    then have "sink pq k = Some (Inr pq)" by (subst sink.simps) simp
    moreover have "policy ?cmp \<Longrightarrow> heap_down ?cmp (slot pq) ?n k \<Longrightarrow> heap_fn ?cmp (slot pq) ?n"
      using heap_down_done[OF _ _ j_eq] False by blast
    ultimately show ?thesis using wf by (auto simp: same_queue_refl)
  next
    case True
    have kn: "k \<le> ?n" using True by simp
    have test: "(if 2 * k < ?n then less_pq pq (2 * k) (2 * k + 1) else Inr False) = Inr up"
      using less_pq_wf[OF wf, of "2 * k" "2 * k + 1"] k1 by (auto simp: up_def)
    have j: "1 \<le> j" "j \<le> ?n" "k < j" using True k1 by (auto simp: j_def up_def)
    have lessj: "less_pq pq k j = Inr ?d"
      using less_pq_wf[OF wf k1 kn j(1,2)] .
    have unfold: "sink pq k = (if \<not> ?d then Some (Inr pq)
         else case exch pq k j of Inl e \<Rightarrow> Some (Inl e) | Inr pq' \<Rightarrow> sink pq' j)"
      apply (subst sink.simps)
      apply (simp only: True test Let_def sum.case if_True)
      apply (fold j_def)
      apply (simp only: lessj sum.case)
      done
    show ?thesis
    proof (cases ?d)
      case False
      have "sink pq k = Some (Inr pq)" using unfold False by simp
      moreover have "policy ?cmp \<Longrightarrow> heap_down ?cmp (slot pq) ?n k \<Longrightarrow> heap_fn ?cmp (slot pq) ?n"
        using heap_down_done[OF _ _ j_eq] False by blast
      ultimately show ?thesis using wf by (auto simp: same_queue_refl)
    next
      case d: True
      let ?q = "exchanged pq k j"
      have ex: "exch pq k j = Inr ?q" using exch_wf[OF wf kn j(2)] .
      have sq: "same_queue pq ?q" using exchanged_same[OF wf k1 kn j(1,2)] .
      then have wfq: "well_formed ?q" and sz: "size_pq ?q = ?n" and cq: "comparator ?q = ?cmp"
        by (auto simp: same_queue_def size_pq_def)
      have sl: "slot ?q = swapf (slot pq) k j" using slot_exchanged[OF wf kn j(2)] .
      have "size_pq ?q - j < ?n - k" using j sz by simp
      from less.hyps[OF this wfq j(1)]
      obtain pq' where r: "sink ?q j = Some (Inr pq')" "same_queue ?q pq'"
        and h: "policy (comparator ?q) \<Longrightarrow> heap_down (comparator ?q) (slot ?q) (size_pq ?q) j \<Longrightarrow>
            heap_fn (comparator pq') (slot pq') (size_pq pq')"
        by blast
      have sk: "sink pq k = Some (Inr pq')" using unfold d ex r(1) by simp
      have "heap_fn (comparator pq') (slot pq') (size_pq pq')"
        if P: "policy ?cmp" and H: "heap_down ?cmp (slot pq) ?n k"
      proof -
        have "heap_down ?cmp (swapf (slot pq) k j) ?n j"
          using heap_down_step[OF P H k1 True j_eq d] .
        then show ?thesis using h[unfolded cq sz sl] P by blast
      qed
      then show ?thesis using sk same_queue_trans[OF sq r(2)] by blast
    qed
  qed
qed

lemma heap_property_iff:
  assumes wf: "well_formed pq"
  shows "heap_property pq \<longleftrightarrow> heap_fn (comparator pq) (slot pq) (size_pq pq)"
proof
  assume H: "heap_property pq"
  show "heap_fn (comparator pq) (slot pq) (size_pq pq)"
    unfolding heap_fn_def
  proof (intro allI impI)
    fix c assume c: "2 \<le> c \<and> c \<le> size_pq pq"
    let ?k = "c div 2"
    have k: "1 \<le> ?k" "?k \<le> size_pq pq" using c by auto
    have "c = 2 * ?k \<or> c = 2 * ?k + 1" by auto
    then have "less_pq pq ?k c = Inr False"
      using H k c unfolding heap_property_def by (metis (no_types, lifting) atLeastLessThan_iff le_imp_less_Suc list.set_intros(1,2) set_upt)
    then show "\<not> dominated (comparator pq) (slot pq ?k) (slot pq c)"
      using less_pq_wf[OF wf k, of c] c by simp
  qed
next
  assume H: "heap_fn (comparator pq) (slot pq) (size_pq pq)"
  show "heap_property pq"
    unfolding heap_property_def
  proof (intro ballI impI)
    fix k c assume k: "k \<in> set [1..<Suc (size_pq pq)]" and c: "c \<in> set [2 * k, 2 * k + 1]"
      and cn: "c \<le> size_pq pq"
    have k1: "1 \<le> k" "k \<le> size_pq pq" using k by auto
    have c2: "2 \<le> c" "c div 2 = k" using c k1 by auto
    have "\<not> dominated (comparator pq) (slot pq k) (slot pq c)"
      using H c2 cn by (auto simp: heap_fn_def)
    then show "less_pq pq k c = Inr False"
      using less_pq_wf[OF wf k1, of c] c2 cn by simp
  qed
qed

lemma mset_drop_1: "xs \<noteq> [] \<Longrightarrow> mset xs = add_mset (xs ! 0) (mset (drop 1 xs))"
  by (cases xs) simp_all

lemma entries_eq:
  assumes "well_formed pq"
  shows "mset (items pq) = add_mset None (entries pq)"
proof -
  have "items pq \<noteq> []" "items pq ! 0 = None" using assms by (auto simp: well_formed_iff)
  then show ?thesis using mset_drop_1[of "items pq"] by (simp add: entries_def)
qed

lemma Push_correct:
  assumes wf: "well_formed pq"
  shows "\<exists>pq'. Push pq v p n = Inr pq' \<and> well_formed pq' \<and>
     elemsCount pq' = elemsCount pq + 1 \<and> length (items pq') = length (items pq) + 1 \<and>
     comparator pq' = comparator pq \<and>
     entries pq' = add_mset (newItem v p n) (entries pq) \<and>
     (policy (comparator pq) \<longrightarrow> heap_property pq \<longrightarrow> heap_property pq')"
proof -
  define pq2 where "pq2 = pq\<lparr>items := items pq @ [newItem v p n], elemsCount := elemsCount pq + 1\<rparr>"
  have push: "Push pq v p n = swim pq2 (size_pq pq2)"
    by (simp add: Push_def pq2_def Let_def)
  have wf2: "well_formed pq2"
    using wf by (auto simp: well_formed_iff pq2_def nth_append newItem_def)
  have sz2: "size_pq pq2 = size_pq pq + 1" "comparator pq2 = comparator pq"
    by (simp_all add: pq2_def size_pq_def)
  from swim_correct[OF wf2, of "size_pq pq2"]
  obtain pq' where r: "swim pq2 (size_pq pq2) = Inr pq'" "same_queue pq2 pq'"
    and h: "policy (comparator pq2) \<Longrightarrow> heap_up (comparator pq2) (slot pq2) (size_pq pq2) (size_pq pq2) \<Longrightarrow>
        heap_fn (comparator pq') (slot pq') (size_pq pq')"
    by blast
  have wf': "well_formed pq'" and cnt: "elemsCount pq' = elemsCount pq + 1"
    and cmp: "comparator pq' = comparator pq" and ms: "mset (items pq') = mset (items pq2)"
    using r(2) by (auto simp: same_queue_def pq2_def)
  have len: "length (items pq') = length (items pq) + 1"
    using wf wf' cnt by (simp add: well_formed_iff)
  have "add_mset None (entries pq') = add_mset None (add_mset (newItem v p n) (entries pq))"
    using ms entries_eq[OF wf'] entries_eq[OF wf] by (simp add: pq2_def)
  then have ent: "entries pq' = add_mset (newItem v p n) (entries pq)" by simp
  have "heap_property pq'" if P: "policy (comparator pq)" and H: "heap_property pq"
  proof -
    have Hf: "heap_fn (comparator pq) (slot pq) (size_pq pq)" using H heap_property_iff[OF wf] by simp
    have sl: "\<And>i. i \<le> size_pq pq \<Longrightarrow> slot pq2 i = slot pq i"
      using wf by (simp add: slot_def pq2_def nth_append well_formed_iff size_pq_def)
    have "heap_up (comparator pq) (slot pq2) (size_pq pq + 1) (size_pq pq + 1)"
      unfolding heap_up_def
    proof (intro conjI allI impI)
      fix c assume "2 \<le> c \<and> c \<le> size_pq pq + 1 \<and> c \<noteq> size_pq pq + 1"
      then have c: "2 \<le> c" "c \<le> size_pq pq" by auto
      then have "c div 2 \<le> size_pq pq" by auto
      then show "\<not> dominated (comparator pq) (slot pq2 (c div 2)) (slot pq2 c)"
        using Hf c by (simp add: sl heap_fn_def)
    next
      fix c assume "2 \<le> c \<and> c \<le> size_pq pq + 1 \<and> c div 2 = size_pq pq + 1 \<and> 2 \<le> size_pq pq + 1"
      then have False by auto
      then show "\<not> dominated (comparator pq) (slot pq2 ((size_pq pq + 1) div 2)) (slot pq2 c)" ..
    qed
    then have "heap_fn (comparator pq') (slot pq') (size_pq pq')"
      using h P by (simp add: sz2)
    then show ?thesis using heap_property_iff[OF wf'] by simp
  qed
  then show ?thesis using push r(1) wf' cnt len cmp ent by simp
qed

lemma heap_root:
  assumes P: "policy cmp" and H: "heap_fn cmp f n"
  shows "1 \<le> i \<Longrightarrow> i \<le> n \<Longrightarrow> \<not> dominated cmp (f 1) (f i)"
proof (induction i rule: less_induct)
  case (less i)
  show ?case
  proof (cases "i = 1")
    case True then show ?thesis using dominated_irrefl[OF P] by simp
  next
    case False
    then have i2: "2 \<le> i" using less.prems by simp
    then have "\<not> dominated cmp (f 1) (f (i div 2))"
      using less.IH[of "i div 2"] less.prems by auto
    moreover have "\<not> dominated cmp (f (i div 2)) (f i)"
      using H i2 less.prems by (simp add: heap_fn_def)
    ultimately show ?thesis using dominated_negtrans[OF P] by blast
  qed
qed

lemma Pop_empty: "size_pq pq = 0 \<Longrightarrow> Pop pq = Some (Inr (None, pq))"
  by (simp add: Pop_def)

lemma Head_empty: "size_pq pq = 0 \<Longrightarrow> Head pq = Inr None"
  by (simp add: Head_def)

lemma take_snoc_nth: "length xs = Suc n \<Longrightarrow> xs = take n xs @ [xs ! n]"
  by (metis lessI take_Suc_conv_app_nth take_all order_refl)

lemma Pop_correct:
  assumes wf: "well_formed pq" and n1: "1 \<le> size_pq pq"
  shows "\<exists>m pq'. items pq ! 1 = Some m \<and> Pop pq = Some (Inr (val m, pq')) \<and> well_formed pq' \<and>
     elemsCount pq' + 1 = elemsCount pq \<and> length (items pq') + 1 = length (items pq) \<and>
     comparator pq' = comparator pq \<and>
     entries pq = add_mset (Some m) (entries pq') \<and>
     (policy (comparator pq) \<longrightarrow> heap_property pq \<longrightarrow>
        heap_property pq' \<and>
        (\<forall>e \<in> set_mset (entries pq). \<exists>x. e = Some x \<and> \<not> dominated (comparator pq) m x))"
proof -
  let ?n = "size_pq pq"
  have len: "length (items pq) = ?n + 1" and z: "items pq ! 0 = None"
    and live: "\<And>i. 1 \<le> i \<Longrightarrow> i \<le> ?n \<Longrightarrow> items pq ! i \<noteq> None"
    using wf by (auto simp: well_formed_iff size_pq_def)
  obtain m where m: "items pq ! 1 = Some m" using live[of 1] n1 by auto
  have idx: "index (items pq) 1 = Inr (Some m)" using len n1 m by (simp add: index_def)
  let ?q1 = "exchanged pq 1 ?n"
  have ex: "exch pq 1 ?n = Inr ?q1" using exch_wf[OF wf n1] by simp
  have sq1: "same_queue pq ?q1" using exchanged_same[OF wf _ n1 n1] by simp
  then have wf1: "well_formed ?q1" and sz1: "size_pq ?q1 = ?n" and cmp1: "comparator ?q1 = comparator pq"
    and ms1: "mset (items ?q1) = mset (items pq)"
    by (auto simp: same_queue_def size_pq_def)
  have len1: "length (items ?q1) = ?n + 1" using wf1 sz1 by (simp add: well_formed_iff size_pq_def)
  have nth1: "\<And>c. items ?q1 ! c = (if c = ?n then items pq ! 1 else if c = 1 then items pq ! ?n else items pq ! c)"
    using nth_exchanged[of 1 "items pq" ?n] len n1 by (simp add: exchanged_def)
  define pq3 where "pq3 = ?q1\<lparr>items := take ?n (items ?q1), elemsCount := elemsCount ?q1 - 1\<rparr>"
  have sz3: "size_pq pq3 = ?n - 1" "comparator pq3 = comparator pq" "length (items pq3) = ?n"
    using sz1 len1 by (simp_all add: pq3_def size_pq_def exchanged_def)
  have nth3: "\<And>c. c < ?n \<Longrightarrow> items pq3 ! c = (if c = 1 then items pq ! ?n else items pq ! c)"
    using nth1 by (simp add: pq3_def)
  have wf3: "well_formed pq3"
    unfolding well_formed_iff
  proof (intro conjI allI impI)
    show "length (items pq3) = elemsCount pq3 + 1" using sz3 n1 by (simp add: size_pq_def)
    show "items pq3 ! 0 = None" using nth3[of 0] n1 z by simp
    fix i assume "1 \<le> i \<and> i \<le> elemsCount pq3"
    then have i: "1 \<le> i" "i < ?n" using sz3 n1 by (auto simp: size_pq_def)
    then show "items pq3 ! i \<noteq> None" using nth3[of i] live[of i] live[of ?n] n1 by auto
  qed
  have pop: "Pop pq = (case sink pq3 1 of None \<Rightarrow> None | Some (Inl e) \<Rightarrow> Some (Inl e)
      | Some (Inr pq4) \<Rightarrow> Some (Inr (val m, pq4)))"
    using n1 idx ex sz1 len1
    by (simp add: Pop_def Let_def pq3_def deref_def split: option.split sum.split)
  from sink_correct[OF wf3, of 1]
  obtain pq' where r: "sink pq3 1 = Some (Inr pq')" "same_queue pq3 pq'"
    and h: "policy (comparator pq3) \<Longrightarrow> heap_down (comparator pq3) (slot pq3) (size_pq pq3) 1 \<Longrightarrow>
        heap_fn (comparator pq') (slot pq') (size_pq pq')"
    by auto
  have wf': "well_formed pq'" and cnt: "elemsCount pq' = ?n - 1"
    and cmp: "comparator pq' = comparator pq" and ms: "mset (items pq') = mset (items pq3)"
    using r(2) sz3 by (auto simp: same_queue_def size_pq_def)
  have len': "length (items pq') + 1 = length (items pq)"
    using wf' cnt len n1 by (simp add: well_formed_iff)
  have "items ?q1 = take ?n (items ?q1) @ [items ?q1 ! ?n]"
    using take_snoc_nth[of "items ?q1" ?n] len1 by simp
  then have "mset (items ?q1) = mset (take ?n (items ?q1) @ [items ?q1 ! ?n])"
    by simp
  then have "mset (items ?q1) = add_mset (Some m) (mset (items pq3))"
    using nth1[of ?n] m by (simp add: pq3_def)
  then have "mset (items pq) = add_mset (Some m) (mset (items pq'))"
    by (simp only: ms ms1)
  then have "add_mset None (entries pq) = add_mset (Some m) (add_mset None (entries pq'))"
    by (simp only: entries_eq[OF wf] entries_eq[OF wf'])
  then have "add_mset None (entries pq) = add_mset None (add_mset (Some m) (entries pq'))"
    by (simp only: add_mset_commute)
  then have ent: "entries pq = add_mset (Some m) (entries pq')"
    by (simp only: add_mset_add_mset_same_iff)
  have hp: "heap_property pq' \<and> (\<forall>e \<in> set_mset (entries pq). \<exists>x. e = Some x \<and> \<not> dominated (comparator pq) m x)"
    if P: "policy (comparator pq)" and H: "heap_property pq"
  proof
    have Hf: "heap_fn (comparator pq) (slot pq) ?n" using H heap_property_iff[OF wf] by simp
    have sl: "\<And>i. 2 \<le> i \<Longrightarrow> i < ?n \<Longrightarrow> slot pq3 i = slot pq i"
      using nth3 by (simp add: slot_def)
    have "heap_down (comparator pq) (slot pq3) (?n - 1) 1"
      unfolding heap_down_def
    proof (intro conjI allI impI)
      fix c assume "2 \<le> c \<and> c \<le> ?n - 1 \<and> c div 2 \<noteq> 1"
      then have c: "2 \<le> c" "c < ?n" "2 \<le> c div 2" "c div 2 < ?n" by auto
      then show "\<not> dominated (comparator pq) (slot pq3 (c div 2)) (slot pq3 c)"
        using Hf by (simp add: sl heap_fn_def)
    next
      fix c assume "2 \<le> c \<and> c \<le> ?n - 1 \<and> c div 2 = 1 \<and> (2::nat) \<le> 1"
      then have False by auto
      then show "\<not> dominated (comparator pq) (slot pq3 (1 div 2)) (slot pq3 c)" ..
    qed
    then have "heap_fn (comparator pq') (slot pq') (size_pq pq')"
      using h P by (simp add: sz3)
    then show "heap_property pq'" using heap_property_iff[OF wf'] by simp
    show "\<forall>e \<in> set_mset (entries pq). \<exists>x. e = Some x \<and> \<not> dominated (comparator pq) m x"
    proof
      fix e assume "e \<in> set_mset (entries pq)"
      then have "e \<in> set (drop 1 (items pq))" by (simp add: entries_def)
      then obtain i where i: "i < length (drop 1 (items pq))" "e = drop 1 (items pq) ! i"
        by (auto simp: in_set_conv_nth)
      then have e: "e = items pq ! (i + 1)" and ir: "1 \<le> i + 1" "i + 1 \<le> ?n"
        using len by auto
      obtain x where x: "e = Some x" using live[OF ir] e by auto
      have "\<not> dominated (comparator pq) (slot pq 1) (slot pq (i + 1))"
        using heap_root[OF P Hf ir] .
      then show "\<exists>x. e = Some x \<and> \<not> dominated (comparator pq) m x"
        using x e m by (simp add: slot_def)
    qed
  qed
  show ?thesis using m pop r(1) wf' cnt n1 len' cmp ent hp by (auto simp: size_pq_def)
qed

section \<open>Sequences of operations keep the invariants\<close>

lemma New_well_formed:
  "well_formed (NewBidPQueue t)" "well_formed (NewAskPQueue t)"
  by (simp_all add: well_formed_iff NewBidPQueue_def NewAskPQueue_def)

lemma New_policy:
  "policy (comparator (NewBidPQueue t))" "policy (comparator (NewAskPQueue t))"
  by (simp_all add: policy_def NewBidPQueue_def NewAskPQueue_def)

lemma New_heap:
  "heap_property (NewBidPQueue t)" "heap_property (NewAskPQueue t)"
  by (simp_all add: heap_property_def NewBidPQueue_def NewAskPQueue_def size_pq_def)

lemma Pop_total:
  assumes wf: "well_formed pq"
  shows "\<exists>r pq'. Pop pq = Some (Inr (r, pq')) \<and> well_formed pq' \<and>
     size_pq pq' = size_pq pq - 1 \<and> comparator pq' = comparator pq \<and>
     (policy (comparator pq) \<longrightarrow> heap_property pq \<longrightarrow> heap_property pq')"
proof (cases "size_pq pq = 0")
  case True
  then have "Pop pq = Some (Inr (None, pq))" by (rule Pop_empty)
  then show ?thesis using wf True by (intro exI[of _ None] exI[of _ pq]) simp
next
  case False
  then have "1 \<le> size_pq pq" by simp
  from Pop_correct[OF wf this] show ?thesis
    by (fastforce simp: size_pq_def)
qed

lemma run_invariant:
  "well_formed pq \<Longrightarrow> policy (comparator pq) \<Longrightarrow> heap_property pq \<Longrightarrow>
   \<exists>vs pq'. run ops pq = Some (Inr (vs, pq')) \<and> well_formed pq' \<and>
     policy (comparator pq') \<and> heap_property pq'"
proof (induction ops arbitrary: pq)
  case Nil
  then show ?case by simp
next
  case (Cons a ops)
  show ?case
  proof (cases a)
    case (OpPush v p n)
    from Push_correct[OF Cons.prems(1), of v p n]
    obtain pq1 where p: "Push pq v p n = Inr pq1" "well_formed pq1" "comparator pq1 = comparator pq"
      "heap_property pq1" using Cons.prems by auto
    from Cons.IH[OF p(2) _ p(4)] p(3) Cons.prems(2)
    obtain vs pq' where "run ops pq1 = Some (Inr (vs, pq'))" "well_formed pq'"
      "policy (comparator pq')" "heap_property pq'" by auto
    then show ?thesis using OpPush p(1) by simp
  next
    case OpPop
    from Pop_total[OF Cons.prems(1)]
    obtain r pq1 where p: "Pop pq = Some (Inr (r, pq1))" "well_formed pq1" "comparator pq1 = comparator pq"
      "heap_property pq1" using Cons.prems by auto
    from Cons.IH[OF p(2) _ p(4)] p(3) Cons.prems(2)
    obtain vs pq' where "run ops pq1 = Some (Inr (vs, pq'))" "well_formed pq'"
      "policy (comparator pq')" "heap_property pq'" by auto
    then show ?thesis using OpPop p(1) by simp
  qed
qed

lemma run_pushes:
  "well_formed pq \<Longrightarrow>
   \<exists>pq'. run (pushes es @ ops) pq = run ops pq' \<and> well_formed pq' \<and>
     size_pq pq' = size_pq pq + length es"
proof (induction es arbitrary: pq)
  case Nil
  then show ?case by (intro exI[of _ pq]) (simp add: pushes_def)
next
  case (Cons e es)
  obtain v p n where e: "e = (v, p, n)" by (cases e)
  from Push_correct[OF Cons.prems, of v p n]
  obtain pq1 where p: "Push pq v p n = Inr pq1" "well_formed pq1" "size_pq pq1 = size_pq pq + 1"
    by (auto simp: size_pq_def)
  from Cons.IH[OF p(2)]
  obtain pq' where "run (pushes es @ ops) pq1 = run ops pq'" "well_formed pq'"
    "size_pq pq' = size_pq pq1 + length es" by auto
  then show ?case using e p by (auto simp: pushes_def)
qed

lemma run_pops:
  "well_formed pq \<Longrightarrow> size_pq pq = n \<Longrightarrow>
   \<exists>vs pq'. run (pops n) pq = Some (Inr (vs, pq')) \<and> well_formed pq' \<and> size_pq pq' = 0"
proof (induction n arbitrary: pq)
  case 0
  then show ?case by (simp add: pops_def)
next
  case (Suc n)
  from Pop_total[OF Suc.prems(1)]
  obtain r pq1 where p: "Pop pq = Some (Inr (r, pq1))" "well_formed pq1" "size_pq pq1 = n"
    using Suc.prems(2) by auto
  from Suc.IH[OF p(2,3)]
  obtain vs pq' where "run (pops n) pq1 = Some (Inr (vs, pq'))" "well_formed pq'" "size_pq pq' = 0"
    by auto
  then show ?case using p(1) by (auto simp: pops_def)
qed

lemma drain:
  assumes wf: "well_formed pq" and e: "size_pq pq = 0"
  shows "\<exists>vs pq'. run (pushes es @ pops (length es)) pq = Some (Inr (vs, pq')) \<and> Empty pq' \<and>
     Pop pq' = Some (Inr (None, pq')) \<and> Head pq' = Inr None"
proof -
  from run_pushes[OF wf, of es "pops (length es)"]
  obtain pq1 where a: "run (pushes es @ pops (length es)) pq = run (pops (length es)) pq1"
    "well_formed pq1" "size_pq pq1 = length es" using e by auto
  from run_pops[OF a(2,3)]
  obtain vs pq' where b: "run (pops (length es)) pq1 = Some (Inr (vs, pq'))" "size_pq pq' = 0"
    by auto
  show ?thesis using a(1) b Pop_empty[OF b(2)] Head_empty[OF b(2)] by (simp add: Empty_def)
qed


text \<open>
  C3: every sequence of Push and Pop calls on a newly constructed queue, of either payload
  type and any ordering mode, runs to its end without a panic, and the queue it leaves has
  the heap property: \<open>less\<close> answers false for every node \<open>k \<ge> 1\<close> against each of its
  live children \<open>2k\<close> and \<open>2k + 1\<close>.
\<close>

theorem heap_invariant:
  "(\<exists>vs pq'. run ops (NewBidPQueue pqType) = Some (Inr (vs, pq')) \<and> heap_property pq') \<and>
   (\<exists>vs pq'. run ops (NewAskPQueue pqType) = Some (Inr (vs, pq')) \<and> heap_property pq')"
  using run_invariant[OF New_well_formed(1) New_policy(1) New_heap(1), where ops = ops]
    run_invariant[OF New_well_formed(2) New_policy(2) New_heap(2), where ops = ops]
  by blast

lemma run_four_pushed:
  "run (pushes four_entries) (NewBidPQueue MAXPQ) = Some (Inr ([], four_pushed))"
  by (simp add: run_defs NewBidPQueue_def bidComparator_def four_pushed_def)

lemma Pop_four_pushed: "Pop four_pushed = Some (Inr (Some ''C'', three_left))"
  by (simp add: run_defs bidComparator_def four_pushed_def three_left_def)

lemma four_pushed_well_formed: "well_formed four_pushed"
  by (simp add: well_formed_def structural_def live_slots_def index_def four_pushed_def
      upt_conv_Cons)
lemma four_pushed_policy: "policy (comparator four_pushed)"
  by (simp add: policy_def four_pushed_def)

lemma four_pushed_heap: "heap_property four_pushed"
  by code_simp

lemma three_left_children: "less_pq three_left 1 2 = Inr False \<and> less_pq three_left 1 3 = Inr False"
  by code_simp

text \<open>
  The heap property is not empty of content: after the four pushes and one Pop the root has
  two live children, and \<open>less\<close> answers false for both.
\<close>

theorem heap_invariant_witness:
  "run (pushes four_entries @ pops 1) (NewBidPQueue MAXPQ) = Some (Inr ([Some ''C''], three_left)) \<and>
   heap_property three_left \<and> size_pq three_left = 3 \<and>
   less_pq three_left 1 2 = Inr False \<and> less_pq three_left 1 3 = Inr False"
proof -
  have r: "run (pushes four_entries @ pops 1) (NewBidPQueue MAXPQ) = Some (Inr ([Some ''C''], three_left))"
    by (simp add: run_defs pops_def NewBidPQueue_def bidComparator_def three_left_def)
  from heap_invariant[of "pushes four_entries @ pops 1" MAXPQ]
  obtain vs pq' where "run (pushes four_entries @ pops 1) (NewBidPQueue MAXPQ) = Some (Inr (vs, pq'))"
    "heap_property pq'" by blast
  then have h: "heap_property three_left" using r by simp
  then show ?thesis using r three_left_children by (simp add: size_pq_def three_left_def)
qed

section \<open>Pop, the empty queue and the structural invariant\<close>

text \<open>
  C5: on a non-empty well-formed queue with the heap property, whose comparator is one of
  the two policies, Pop returns the payload of the entry \<open>m\<close> in slot 1; the comparator judges
  no entry present at the start of the call as dominating \<open>m\<close>; the entries afterwards are
  those before with \<open>m\<close> taken out once; the count is one less; and the queue is again
  well formed with the heap property.
\<close>

theorem pop_best_correct:
  assumes "well_formed pq" and "policy (comparator pq)" and "heap_property pq"
    and "1 \<le> size_pq pq"
  shows "\<exists>m pq'. index (items pq) 1 = Inr (Some m) \<and> Pop pq = Some (Inr (val m, pq')) \<and>
     (\<forall>e \<in> set_mset (entries pq). \<exists>x. e = Some x \<and> \<not> dominated (comparator pq) m x) \<and>
     entries pq = add_mset (Some m) (entries pq') \<and>
     elemsCount pq' + 1 = elemsCount pq \<and> Size pq' + 1 = Size pq \<and>
     well_formed pq' \<and> heap_property pq'"
proof -
  from Pop_correct[OF assms(1,4)] assms(2,3)
  obtain m pq' where p: "items pq ! 1 = Some m" "Pop pq = Some (Inr (val m, pq'))"
    "well_formed pq'" "elemsCount pq' + 1 = elemsCount pq"
    "entries pq = add_mset (Some m) (entries pq')" "heap_property pq'"
    "\<forall>e \<in> set_mset (entries pq). \<exists>x. e = Some x \<and> \<not> dominated (comparator pq) m x"
    by blast
  have "1 < length (items pq)" using assms(1,4) by (simp add: well_formed_iff size_pq_def)
  then have "index (items pq) 1 = Inr (Some m)" using p(1) by (simp add: index_def)
  then show ?thesis using p by (auto simp: Size_def size_pq_def)
qed

lemma entries_four_pushed:
  "entries four_pushed = {#Some \<lparr>val = Some ''C'', price = 20, quantity = 9\<rparr>,
        Some \<lparr>val = Some ''D'', price = 15, quantity = 3\<rparr>,
        Some \<lparr>val = Some ''B'', price = 20, quantity = 1\<rparr>,
        Some \<lparr>val = Some ''A'', price = 10, quantity = 5\<rparr>#}"
  by (simp add: entries_def four_pushed_def)

text \<open>
  At the queue the four pushes leave: Pop returns C, which B (same price, smaller quantity)
  does not dominate.
\<close>

theorem pop_best_correct_witness:
  "well_formed four_pushed \<and> policy (comparator four_pushed) \<and> heap_property four_pushed \<and>
   1 \<le> size_pq four_pushed \<and>
   Pop four_pushed = Some (Inr (Some ''C'', three_left)) \<and>
   \<not> dominated bidComparator \<lparr>val = Some ''C'', price = 20, quantity = 9\<rparr>
        \<lparr>val = Some ''B'', price = 20, quantity = 1\<rparr> \<and>
   elemsCount three_left + 1 = elemsCount four_pushed \<and> heap_property three_left"
proof -
  have s: "1 \<le> size_pq four_pushed" by (simp add: size_pq_def four_pushed_def)
  from pop_best_correct[OF four_pushed_well_formed four_pushed_policy four_pushed_heap s]
  obtain m pq' where p: "index (items four_pushed) 1 = Inr (Some m)"
    "Pop four_pushed = Some (Inr (val m, pq'))"
    "\<forall>e \<in> set_mset (entries four_pushed). \<exists>x. e = Some x \<and> \<not> dominated (comparator four_pushed) m x"
    "elemsCount pq' + 1 = elemsCount four_pushed" "heap_property pq'"
    by blast
  have m: "m = \<lparr>val = Some ''C'', price = 20, quantity = 9\<rparr>"
    using p(1) by (simp add: index_def four_pushed_def)
  have q: "pq' = three_left" using p(2) Pop_four_pushed by simp
  have "\<not> dominated (comparator four_pushed) m \<lparr>val = Some ''B'', price = 20, quantity = 1\<rparr>"
    using p(3) by (simp add: entries_four_pushed)
  then have "\<not> dominated bidComparator \<lparr>val = Some ''C'', price = 20, quantity = 9\<rparr>
        \<lparr>val = Some ''B'', price = 20, quantity = 1\<rparr>"
    using m by (simp add: four_pushed_def)
  then show ?thesis
    using four_pushed_well_formed four_pushed_policy four_pushed_heap s p(4,5) q Pop_four_pushed
    by simp
qed

text \<open>
  C6: on a queue whose count is zero, Pop returns nil and the queue as it was, and Head
  returns nil, neither with a panic. After the pushes of any \<open>N\<close> entries into a new queue and
  \<open>N\<close> Pops, Empty answers true and a further Pop or Head returns nil.
\<close>

theorem empty_queue_absent_result:
  "(size_pq pq = 0 \<longrightarrow> Pop pq = Some (Inr (None, pq)) \<and> Head pq = Inr None) \<and>
   (\<exists>vs pq'. run (pushes es @ pops (length es)) (NewBidPQueue pqType) = Some (Inr (vs, pq')) \<and>
      Empty pq' \<and> Pop pq' = Some (Inr (None, pq')) \<and> Head pq' = Inr None) \<and>
   (\<exists>vs pq'. run (pushes es @ pops (length es)) (NewAskPQueue pqType) = Some (Inr (vs, pq')) \<and>
      Empty pq' \<and> Pop pq' = Some (Inr (None, pq')) \<and> Head pq' = Inr None)"
proof -
  have "size_pq (NewBidPQueue pqType) = 0" "size_pq (NewAskPQueue pqType) = 0"
    by (simp_all add: size_pq_def NewBidPQueue_def NewAskPQueue_def)
  then show ?thesis
    using drain[OF New_well_formed(1)] drain[OF New_well_formed(2)] Pop_empty Head_empty
    by blast
qed

text \<open>
  At a new queue, and at the four entries pushed and popped.
\<close>

theorem empty_queue_absent_result_witness:
  "size_pq (NewBidPQueue MAXPQ :: string PQueue) = 0 \<and>
   Pop (NewBidPQueue MAXPQ :: string PQueue) = Some (Inr (None, NewBidPQueue MAXPQ)) \<and>
   Head (NewBidPQueue MAXPQ :: string PQueue) = Inr None \<and>
   (\<exists>vs pq'. run (pushes four_entries @ pops 4) (NewBidPQueue MAXPQ) = Some (Inr (vs, pq')) \<and>
      Empty pq' \<and> Pop pq' = Some (Inr (None, pq')) \<and> Head pq' = Inr None)"
proof -
  have s: "size_pq (NewBidPQueue MAXPQ :: string PQueue) = 0"
    by (simp add: size_pq_def NewBidPQueue_def)
  have l: "length four_entries = 4" by (simp add: four_entries_def)
  show ?thesis
    using s l empty_queue_absent_result[of "NewBidPQueue MAXPQ :: string PQueue" four_entries MAXPQ]
    by simp
qed

text \<open>
  C10: a new queue has the backing sequence \<open>[nil]\<close> and count 0. On a well-formed queue
  Push returns a queue whose sequence and count are each one more, Pop on a non-empty one a
  queue whose sequence and count are each one less, and both results are well formed again:
  the sequence is one longer than the count, slot 0 is nil, and the live slots hold items.
  Hence every queue reached from a constructor by Push and Pop has the structural invariant.
\<close>

theorem structural_invariant:
  "structural (NewBidPQueue pqType) \<and> items (NewBidPQueue pqType) = [None] \<and>
   elemsCount (NewBidPQueue pqType) = 0 \<and> well_formed (NewBidPQueue pqType) \<and>
   structural (NewAskPQueue pqType) \<and> items (NewAskPQueue pqType) = [None] \<and>
   elemsCount (NewAskPQueue pqType) = 0 \<and> well_formed (NewAskPQueue pqType) \<and>
   (well_formed pq \<longrightarrow>
      (\<exists>pq'. Push pq v p n = Inr pq' \<and> structural pq' \<and> live_slots pq' \<and>
         length (items pq') = length (items pq) + 1 \<and> elemsCount pq' = elemsCount pq + 1)) \<and>
   (well_formed pq \<and> 1 \<le> size_pq pq \<longrightarrow>
      (\<exists>r pq'. Pop pq = Some (Inr (r, pq')) \<and> structural pq' \<and> live_slots pq' \<and>
         length (items pq') + 1 = length (items pq) \<and> elemsCount pq' + 1 = elemsCount pq)) \<and>
   (\<exists>vs pq'. run ops (NewBidPQueue pqType) = Some (Inr (vs, pq')) \<and> structural pq') \<and>
   (\<exists>vs pq'. run ops (NewAskPQueue pqType) = Some (Inr (vs, pq')) \<and> structural pq')"
proof -
  have new: "structural (NewBidPQueue pqType) \<and> items (NewBidPQueue pqType) = [None] \<and>
     elemsCount (NewBidPQueue pqType) = 0 \<and> well_formed (NewBidPQueue pqType) \<and>
     structural (NewAskPQueue pqType) \<and> items (NewAskPQueue pqType) = [None] \<and>
     elemsCount (NewAskPQueue pqType) = 0 \<and> well_formed (NewAskPQueue pqType)"
    using New_well_formed[of pqType]
    by (simp add: well_formed_def structural_def NewBidPQueue_def NewAskPQueue_def index_def)
  have push: "\<exists>pq'. Push pq v p n = Inr pq' \<and> structural pq' \<and> live_slots pq' \<and>
         length (items pq') = length (items pq) + 1 \<and> elemsCount pq' = elemsCount pq + 1"
    if "well_formed pq"
    using Push_correct[OF that, of v p n] by (auto simp: well_formed_def)
  have pop: "\<exists>r pq'. Pop pq = Some (Inr (r, pq')) \<and> structural pq' \<and> live_slots pq' \<and>
         length (items pq') + 1 = length (items pq) \<and> elemsCount pq' + 1 = elemsCount pq"
    if "well_formed pq" "1 \<le> size_pq pq"
    using Pop_correct[OF that] by (auto simp: well_formed_def)
  have run: "\<exists>vs pq'. run ops (NewBidPQueue pqType) = Some (Inr (vs, pq')) \<and> structural pq'"
    "\<exists>vs pq'. run ops (NewAskPQueue pqType) = Some (Inr (vs, pq')) \<and> structural pq'"
    using run_invariant[OF New_well_formed(1) New_policy(1) New_heap(1), of ops pqType]
      run_invariant[OF New_well_formed(2) New_policy(2) New_heap(2), of ops pqType]
    unfolding well_formed_def by blast+
  show ?thesis using new push pop run by blast
qed

text \<open>
  At the queue the four pushes leave: a fifth Push makes the sequence 6 long for 5 entries,
  a Pop makes it 4 long for 3.
\<close>

theorem structural_invariant_witness:
  "well_formed four_pushed \<and> 1 \<le> size_pq four_pushed \<and>
   (\<exists>pq'. Push four_pushed (Some ''E'') 12 7 = Inr pq' \<and> structural pq' \<and>
      length (items pq') = 6 \<and> elemsCount pq' = 5) \<and>
   (\<exists>r pq'. Pop four_pushed = Some (Inr (r, pq')) \<and> structural pq' \<and>
      length (items pq') = 4 \<and> elemsCount pq' = 3)"
proof -
  have s: "1 \<le> size_pq four_pushed" by (simp add: size_pq_def four_pushed_def)
  have l: "length (items four_pushed) = 5" "elemsCount four_pushed = 4"
    by (simp_all add: four_pushed_def)
  show ?thesis
    using structural_invariant[of MAXPQ four_pushed "Some ''E''" 12 7 "[]"]
      four_pushed_well_formed s l
    by auto
qed

section \<open>The console and the configuration loader\<close>

lemma dom_replCmds:
  "dom replCmds =
     {''sendnotif'', ''add_stocks_to_exchange'', ''update_stock_price'', ''add_market_event''}"
  by (auto simp: replCmds_def split: if_splits)

lemma fold_snoc: "fold (\<lambda>cmd vc. vc @ [cmd]) xs ys = ys @ xs"
  by (induction xs arbitrary: ys) simp_all

lemma validCmds_InitREPL: "validCmds (InitREPL order st) = validCmds st @ order"
  by (simp add: InitREPL_def fold_snoc)

text \<open>
  C9: let \<open>InitREPL\<close> have filled \<open>validCmds\<close> with the command names, in the order \<open>order\<close>.
  When \<open>Handle\<close> is called with an identifier that has no session and a command that is not
  a key of \<open>replCmds\<close>, it returns the message \<open>Invalid command '<cmd>'. Valid commands are:
  [<names>] \<close> with the four command names, and leaves the state as it was: the identifier
  still has no session, and a later call with it is handled as this one is.
\<close>

theorem Handle_invalid_command:
  assumes "cmdSessions st sid = None" and "replCmds cmd = None"
    and "distinct order" and "set order = dom replCmds"
    and "validCmds st = validCmds (InitREPL order repl_init)"
  shows "Handle st done_closed made sid cmd =
       (Return (''Invalid command '' @ [CHR 0x27] @ cmd @ [CHR 0x27] @
          ''. Valid commands are: ['' @ join_sp order @ ''] ''), st) \<and>
     set order =
       {''sendnotif'', ''add_stocks_to_exchange'', ''update_stock_price'', ''add_market_event''} \<and>
     cmdSessions (snd (Handle st done_closed made sid cmd)) sid = None \<and>
     Handle (snd (Handle st done_closed made sid cmd)) done_closed' made' sid cmd =
       Handle st done_closed' made' sid cmd"
proof -
  have v: "validCmds st = order"
    using assms(5) by (simp add: validCmds_InitREPL repl_init_def)
  have h: "\<And>d m. Handle st d m sid cmd = (Return (invalid_command cmd order), st)"
    using assms(1,2) v by (simp add: Handle_def)
  show ?thesis
    using h assms(1,4) by (simp add: invalid_command_def fmt_strings_def dom_replCmds)
qed

text \<open>
  With one order of the four names, the identifier \<open>conn-1\<close> and the command \<open>help\<close>.
\<close>

theorem Handle_invalid_command_witness:
  "cmdSessions (InitREPL sample_order repl_init) ''conn-1'' = None \<and>
   replCmds ''help'' = None \<and> distinct sample_order \<and> set sample_order = dom replCmds \<and>
   Handle (InitREPL sample_order repl_init) False \<lparr>chan_in = 0, chan_out = 1\<rparr> ''conn-1'' ''help'' =
     (Return ''Invalid command 'help'. Valid commands are: [update_stock_price sendnotif add_market_event add_stocks_to_exchange] '',
      InitREPL sample_order repl_init)"
proof -
  have a: "cmdSessions (InitREPL sample_order repl_init) ''conn-1'' = None"
    by (simp add: InitREPL_def repl_init_def)
  have b: "replCmds ''help'' = None" by (simp add: replCmds_def)
  have c: "distinct sample_order" by (simp add: sample_order_def)
  have d: "set sample_order = dom replCmds" by (auto simp: dom_replCmds sample_order_def)
  show ?thesis
    using Handle_invalid_command[OF a b c d refl, of False "\<lparr>chan_in = 0, chan_out = 1\<rparr>"] a b c d
    by (simp add: sample_order_def)
qed

text \<open>
  C8: \<open>InitConfiguration\<close> ends in \<open>log.Fatal\<close> exactly when \<open>config.json\<close> cannot be opened
  or, opened, its contents do not decode. When the file opens and decodes, it returns with
  the decoded values as the configuration.
\<close>

theorem InitConfiguration_fatal_iff:
  "((\<exists>msg. InitConfiguration fs decode conf = Fatal msg) \<longleftrightarrow>
      isl (fs ''config.json'') \<or>
      (\<exists>contents. fs ''config.json'' = Inr contents \<and> isl (decode contents conf))) \<and>
   (\<forall>contents conf'. fs ''config.json'' = Inr contents \<and> decode contents conf = Inr conf' \<longrightarrow>
      InitConfiguration fs decode conf = Returns conf')"
  by (auto simp: InitConfiguration_def split: sum.splits)

text \<open>
  A missing file, a file that does not decode, and a file that does.
\<close>

theorem InitConfiguration_fatal_iff_witness:
  "InitConfiguration (\<lambda>name. Inl ''open config.json: no such file or directory'')
       sample_decode sample_conf = Fatal ''Failed to open config.json. Cannot proceed'' \<and>
   InitConfiguration (\<lambda>name. Inr ''{'') sample_decode sample_conf =
       Fatal ''Failed to load configuration. Cannot proceed. Error: unexpected EOF'' \<and>
   InitConfiguration (\<lambda>name. Inr ''{}'') sample_decode sample_conf = Returns sample_conf"
  using InitConfiguration_fatal_iff[of "\<lambda>name. Inr ''{}''" sample_decode sample_conf]
  by (simp add: InitConfiguration_def sample_decode_def)

end
